theory Spec2Isabelle
  imports Main "HOL-Library.Char_ord" "HOL-Library.List_Lexorder"
begin

section \<open>Python values used by the two generator scripts\<close>

text \<open>
  The repository holds two scripts: \<^verbatim>\<open>data/generators/generate_test_users.py\<close>
  (variant B) and \<^verbatim>\<open>data/generate_users.py\<close> (variant A). Both draw names and dates
  from the Faker library and choices from Python's \<^verbatim>\<open>random\<close> module, and write a CSV
  file. The embedding keeps the scripts' functions and makes explicit what they leave
  implicit: exceptions are values of \<open>py_error\<close>, the two libraries are streams of
  draws handed to the functions, and the operating system is a record of the files, as a
  map from paths to their text, and of what \<^verbatim>\<open>print\<close> and \<^verbatim>\<open>open\<close> raise.
  A string is a list of 8-bit characters, read as the code points below 256.
\<close>

datatype py_error = IndexError | KeyError | ValueError | OSError | UnicodeEncodeError

type_synonym 'a result = "py_error + 'a"

subsection \<open>Strings\<close>

text \<open>\<^verbatim>\<open>str.isspace\<close> on one character: the code points 9-13, 28-32, 0x85 and 0xA0.\<close>

definition py_isspace :: "char \<Rightarrow> bool" where
  "py_isspace c =
     (let n = (of_char c :: nat)
      in (9 \<le> n \<and> n \<le> 13) \<or> (28 \<le> n \<and> n \<le> 32) \<or> n = 133 \<or> n = 160)"

text \<open>\<^verbatim>\<open>str.lower\<close>: A-Z and the upper-case letters 0xC0-0xDE (0xD7 is the
  multiplication sign) move up by 32; every other code point below 256 stays.\<close>

definition lower_char :: "char \<Rightarrow> char" where
  "lower_char c =
     (let n = (of_char c :: nat)
      in if (65 \<le> n \<and> n \<le> 90) \<or> (192 \<le> n \<and> n \<le> 222 \<and> n \<noteq> 215)
         then char_of (n + 32) else c)"

definition py_lower :: "string \<Rightarrow> string" where
  "py_lower s = map lower_char s"

text \<open>\<^verbatim>\<open>str.split()\<close> with no argument: the maximal runs of characters that are not
  white space, in order. \<open>cur\<close> is the word being read.\<close>

fun split_scan :: "string \<Rightarrow> string \<Rightarrow> string list" where
  "split_scan cur [] = (if cur = [] then [] else [cur])"
| "split_scan cur (c # cs) =
     (if py_isspace c
      then (if cur = [] then split_scan [] cs else cur # split_scan [] cs)
      else split_scan (cur @ [c]) cs)"

definition py_split :: "string \<Rightarrow> string list" where
  "py_split s = split_scan [] s"

text \<open>\<^verbatim>\<open>s.replace(c, "")\<close> for a one-character \<open>c\<close>.\<close>

definition py_remove :: "char \<Rightarrow> string \<Rightarrow> string" where
  "py_remove c s = filter (\<lambda>x. x \<noteq> c) s"

text \<open>\<^verbatim>\<open>sep.join(xs)\<close>.\<close>

fun py_join :: "string \<Rightarrow> string list \<Rightarrow> string" where
  "py_join sep [] = []"
| "py_join sep [x] = x"
| "py_join sep (x # y # ys) = x @ sep @ py_join sep (y # ys)"

text \<open>\<^verbatim>\<open>str(n)\<close> and \<^verbatim>\<open>f"{n}"\<close> for an integer \<open>n \<ge> 0\<close>: its decimal numeral.\<close>

definition digit_char :: "nat \<Rightarrow> char" where
  "digit_char d = char_of (48 + d)"

function py_str :: "nat \<Rightarrow> string" where
  "py_str n = (if n < 10 then [digit_char n] else py_str (n div 10) @ [digit_char (n mod 10)])"
  by pat_completeness auto
termination
  by (relation "measure id") auto

subsection \<open>Dates\<close>

record date =
  date_year :: nat
  date_month :: nat
  date_day :: nat

definition zero_pad :: "nat \<Rightarrow> nat \<Rightarrow> string" where
  "zero_pad w n = replicate (w - length (py_str n)) (CHR ''0'') @ py_str n"

text \<open>\<^verbatim>\<open>d.strftime('%Y-%m-%d')\<close> hands the format to the C library: \<^verbatim>\<open>%m\<close> and \<^verbatim>\<open>%d\<close>
  are two digits; \<^verbatim>\<open>%Y\<close> is the year as a decimal number, which glibc does not pad
  (the year 999 gives \<^verbatim>\<open>999-01-02\<close>). From the year 1000 on every platform agrees.\<close>

definition strftime_Ymd :: "date \<Rightarrow> string" where
  "strftime_Ymd d =
     py_str (date_year d) @ ''-'' @ zero_pad 2 (date_month d) @ ''-'' @ zero_pad 2 (date_day d)"

text \<open>\<^verbatim>\<open>str(d)\<close>, that is \<^verbatim>\<open>d.isoformat()\<close>: the year is padded to four digits.\<close>

definition isoformat :: "date \<Rightarrow> string" where
  "isoformat d =
     zero_pad 4 (date_year d) @ ''-'' @ zero_pad 2 (date_month d) @ ''-'' @ zero_pad 2 (date_day d)"

subsection \<open>The \<^verbatim>\<open>random\<close> module\<close>

text \<open>
  Each call takes the raw draw it consumes as an argument, and returns what the library
  returns for that draw; every result the library can return arises from some draw.
  \<^verbatim>\<open>random.choice(seq)\<close> indexes \<open>seq\<close> and raises IndexError on an empty one;
  \<^verbatim>\<open>random.randint(a, b)\<close> raises ValueError on an empty range;
  \<^verbatim>\<open>random.sample(population, k)\<close> raises ValueError unless \<open>0 \<le> k \<le> len(population)\<close>,
  and otherwise moves \<open>k\<close> entries out of a copy of the population, one at a time, the
  last entry of the pool filling the hole.
\<close>

definition choice :: "'a list \<Rightarrow> nat \<Rightarrow> 'a result" where
  "choice seq r = (if seq = [] then Inl IndexError else Inr (seq ! (r mod length seq)))"

definition randint :: "int \<Rightarrow> int \<Rightarrow> nat \<Rightarrow> int result" where
  "randint a b r = (if b < a then Inl ValueError else Inr (a + int (r mod nat (b - a + 1))))"

fun sample_pool :: "'a list \<Rightarrow> nat \<Rightarrow> (nat \<Rightarrow> nat) \<Rightarrow> nat \<Rightarrow> 'a list" where
  "sample_pool pool 0 js i = []"
| "sample_pool pool (Suc k) js i =
     (let j = js i mod length pool
      in pool ! j # sample_pool (butlast (pool[j := last pool])) k js (Suc i))"

definition sample :: "'a list \<Rightarrow> int \<Rightarrow> (nat \<Rightarrow> nat) \<Rightarrow> 'a list result" where
  "sample population k js =
     (if k < 0 \<or> int (length population) < k then Inl ValueError
      else Inr (sample_pool population (nat k) js 0))"

text \<open>The draws of the \<^verbatim>\<open>random\<close> module that one generated user consumes.\<close>

record random_draw =
  choice_draw :: nat
  randint_draw :: nat
  sample_draws :: "nat \<Rightarrow> nat"

subsection \<open>Files and standard output\<close>

text \<open>\<^verbatim>\<open>csv.writer\<close> with its default dialect: a field is put between double quotes,
  its own double quotes doubled, when it holds a comma, a double quote, a carriage return
  or a line feed; the fields are joined by commas; a row of one empty field is written as
  two double quotes; every row ends with carriage return and line feed. The files are
  opened with \<^verbatim>\<open>newline=''\<close>, so the text reaches the file as it is. The encoding of
  the text into bytes is left out: it is taken to hold every character of the rows.\<close>

type_synonym csv_row = "string list"

definition csv_special :: "char \<Rightarrow> bool" where
  "csv_special c = (c = CHR '','' \<or> c = CHR 0x22 \<or> c = CHR 0x0D \<or> c = CHR 0x0A)"

definition csv_field :: "string \<Rightarrow> string" where
  "csv_field f =
     (if list_ex csv_special f
      then CHR 0x22 # concat (map (\<lambda>c. if c = CHR 0x22 then [c, c] else [c]) f) @ [CHR 0x22]
      else f)"

definition csv_record :: "csv_row \<Rightarrow> string" where
  "csv_record row =
     (if row = [[]] then [CHR 0x22, CHR 0x22] else py_join '','' (map csv_field row))"

definition writerow :: "csv_row \<Rightarrow> string" where
  "writerow row = csv_record row @ [CHR 0x0D, CHR 0x0A]"

definition csv_text :: "csv_row list \<Rightarrow> string" where
  "csv_text rows = concat (map writerow rows)"



text \<open>The operating system as the scripts meet it: the text of every file; the exception
  that \<^verbatim>\<open>print\<close> raises on this standard output, if it raises (a closed stream, or one
  that cannot encode the messages, which hold characters outside ASCII: a stream takes
  every message of a script or none); the exception that \<^verbatim>\<open>open(path, 'w')\<close> raises on
  a path, if it raises (a missing directory, no permission); and the same for
  \<^verbatim>\<open>open(path, 'r')\<close>. An \<^verbatim>\<open>open(path, 'w')\<close> that does not raise creates the file or
  empties it.\<close>

record os_state =
  files :: "string \<rightharpoonup> string"
  stdout_error :: "py_error option"
  open_error :: "string \<Rightarrow> py_error option"
  read_error :: "string \<Rightarrow> py_error option"

section \<open>Variant B: \<^verbatim>\<open>generate_test_users.py\<close>\<close>

text \<open>What the Faker instance returns to one iteration of the loop: \<^verbatim>\<open>fake.name()\<close>
  and \<^verbatim>\<open>fake.date_between(start_date='+6m', end_date='+2y')\<close>.\<close>

record faker_draw =
  fake_name :: string
  fake_date_between :: date

definition DEPARTMENTS :: "string list" where
  "DEPARTMENTS = [''IT'', ''Sales'', ''Marketing'', ''Finance'', ''HR'', ''Operations'', ''Legal'']"

definition GROUPS :: "string \<rightharpoonup> string list" where
  "GROUPS = map_of
     [(''IT'', [''developers'', ''sysadmins'', ''devops'', ''support'']),
      (''Sales'', [''sales'', ''account_managers'', ''business_dev'']),
      (''Marketing'', [''marketing'', ''content'', ''social_media'']),
      (''Finance'', [''finance'', ''accounting'', ''analysts'']),
      (''HR'', [''hr'', ''recruiters'', ''training'']),
      (''Operations'', [''operations'', ''logistics'', ''facilities'']),
      (''Legal'', [''legal'', ''compliance''])]"

definition generate_username :: "string \<Rightarrow> string result" where
  "generate_username full_name =
     (let parts = py_split (py_lower full_name)
      in case (if 2 \<le> length parts
               then (case parts ! 0 of [] \<Rightarrow> Inl IndexError | c # _ \<Rightarrow> Inr (c # last parts))
               else (case parts of [] \<Rightarrow> Inl IndexError | p # _ \<Rightarrow> Inr p)) of
           Inl e \<Rightarrow> Inl e
         | Inr username \<Rightarrow> Inr (py_remove (CHR ''-'') (py_remove (CHR 0x27) username)))"

definition generate_email :: "string \<Rightarrow> string \<Rightarrow> string" where
  "generate_email username domain = username @ ''@'' @ domain"

definition select_groups :: "string \<Rightarrow> random_draw \<Rightarrow> string result" where
  "select_groups department rd =
     (case GROUPS department of
        None \<Rightarrow> Inl KeyError
      | Some available_groups \<Rightarrow>
          (case randint 1 (min 2 (int (length available_groups))) (randint_draw rd) of
             Inl e \<Rightarrow> Inl e
           | Inr num_groups \<Rightarrow>
               (case sample available_groups num_groups (sample_draws rd) of
                  Inl e \<Rightarrow> Inl e
                | Inr selected \<Rightarrow> Inr (py_join '';'' (sort selected)))))"

definition generate_expiry_date :: "faker_draw \<Rightarrow> string" where
  "generate_expiry_date fd = strftime_Ymd (fake_date_between fd)"

text \<open>Lines 87-88: the inner \<^verbatim>\<open>while\<close> loop that looks for a free suffix. It runs as long
  as the candidate is in the set, so on an infinite set it may never return: \<open>None\<close>.\<close>

partial_function (option) suffix_loop :: "string set \<Rightarrow> string \<Rightarrow> nat \<Rightarrow> nat option" where
  "suffix_loop usernames_used username suffix =
     (if username @ py_str suffix \<in> usernames_used
      then suffix_loop usernames_used username (suffix + 1)
      else Some suffix)"

declare suffix_loop.simps [code]

text \<open>Lines 85-89: the username after the duplicate check.\<close>

definition handle_duplicate :: "string set \<Rightarrow> string \<Rightarrow> string option" where
  "handle_duplicate usernames_used username =
     (if username \<in> usernames_used
      then (case suffix_loop usernames_used username 2 of
              None \<Rightarrow> None
            | Some suffix \<Rightarrow> Some (username @ py_str suffix))
      else Some username)"

definition header :: csv_row where
  "header = [''username'', ''fullname'', ''email'', ''department'', ''groups'', ''account_expiry'']"

text \<open>Lines 81-100: one pass through the body of the outer loop, up to the row it writes.
  The result is the username added to the set and the row.\<close>

definition generate_row ::
  "string set \<Rightarrow> faker_draw \<Rightarrow> random_draw \<Rightarrow> (string \<times> csv_row) result option" where
  "generate_row usernames_used fd rd =
     (let full_name = fake_name fd
      in case generate_username full_name of
           Inl e \<Rightarrow> Some (Inl e)
         | Inr username0 \<Rightarrow>
             (case handle_duplicate usernames_used username0 of
                None \<Rightarrow> None
              | Some username \<Rightarrow>
                  (case choice DEPARTMENTS (choice_draw rd) of
                     Inl e \<Rightarrow> Some (Inl e)
                   | Inr department \<Rightarrow>
                       (case select_groups department rd of
                          Inl e \<Rightarrow> Some (Inl e)
                        | Inr groups \<Rightarrow>
                            (let email = generate_email username ''techcorp.com'';
                                 expiry = generate_expiry_date fd
                             in Some (Inr (username,
                                  [username, full_name, email, department, groups, expiry])))))))"

record gen_state =
  usernames_used :: "string set"
  users_generated :: int
  f_rows :: "csv_row list"

text \<open>Lines 79-101; \<open>f_rows\<close> are the rows handed to the writer so far, whose text is in
  the file. An exception leaves the loop with the rows written so far.\<close>

function generate_users_loop ::
  "int \<Rightarrow> (nat \<Rightarrow> faker_draw) \<Rightarrow> (nat \<Rightarrow> random_draw) \<Rightarrow> gen_state
     \<Rightarrow> (py_error option \<times> csv_row list) option" where
  "generate_users_loop count fk rnd st =
     (if users_generated st < count
      then (case generate_row (usernames_used st)
                   (fk (nat (users_generated st))) (rnd (nat (users_generated st))) of
              None \<Rightarrow> None
            | Some (Inl e) \<Rightarrow> Some (Some e, f_rows st)
            | Some (Inr (username, row)) \<Rightarrow>
                generate_users_loop count fk rnd
                  \<lparr>usernames_used = insert username (usernames_used st),
                   users_generated = users_generated st + 1,
                   f_rows = f_rows st @ [row]\<rparr>)
      else Some (None, f_rows st))"
  by pat_completeness auto
termination
  by (relation "measure (\<lambda>(count, fk, rnd, st). nat (count - users_generated st))") auto

text \<open>Lines 72-77: the state in which the loop starts, the header written.\<close>

definition start_state :: gen_state where
  "start_state = \<lparr>usernames_used = {}, users_generated = 0, f_rows = [header]\<rparr>"

text \<open>\<^verbatim>\<open>generate_users(count, output_file)\<close>: \<open>fk\<close> and \<open>rnd\<close> are what Faker and the
  \<^verbatim>\<open>random\<close> module hand to the \<open>i\<close>-th pass of the loop. The \<^verbatim>\<open>print\<close> of line 69
  comes first and the \<^verbatim>\<open>open\<close> of line 75 second: when one of them raises, nothing is
  written. The \<^verbatim>\<open>with\<close> block closes the file on every way out of the loop. After the
  loop the file is opened again to print a sample of it (line 111). The result is the
  exception raised, if any, and the operating system on return.\<close>

definition generate_users ::
  "int \<Rightarrow> string \<Rightarrow> (nat \<Rightarrow> faker_draw) \<Rightarrow> (nat \<Rightarrow> random_draw) \<Rightarrow> os_state
     \<Rightarrow> (py_error option \<times> os_state) option" where
  "generate_users count output_file fk rnd os =
     (case stdout_error os of
        Some e \<Rightarrow> Some (Some e, os)
      | None \<Rightarrow>
          (case open_error os output_file of
             Some e \<Rightarrow> Some (Some e, os)
           | None \<Rightarrow>
               (case generate_users_loop count fk rnd start_state of
                  None \<Rightarrow> None
                | Some (err, rows) \<Rightarrow>
                    (let os' = os\<lparr>files := (files os)(output_file \<mapsto> csv_text rows)\<rparr>
                     in case err of
                          Some e \<Rightarrow> Some (Some e, os')
                        | None \<Rightarrow> Some (read_error os output_file, os')))))"

section \<open>Variant A: \<^verbatim>\<open>generate_users.py\<close>\<close>

text \<open>What Faker returns to one call of \<^verbatim>\<open>generate_user\<close>, in the order of the calls:
  \<^verbatim>\<open>first_name\<close>, \<^verbatim>\<open>last_name\<close>, \<^verbatim>\<open>company_email\<close>, \<^verbatim>\<open>phone_number\<close>,
  \<^verbatim>\<open>date_between(start_date='-2y', end_date='today')\<close> and
  \<^verbatim>\<open>unique.random_number(digits=6)\<close>; and the three draws of \<^verbatim>\<open>random.choice\<close>.\<close>

record faker_draw_A =
  fake_first_name :: string
  fake_last_name :: string
  fake_company_email :: string
  fake_phone_number :: string
  fake_start_date :: date
  fake_random_number :: nat

record random_draw_A =
  format_draw :: nat
  department_draw :: nat
  role_draw :: nat

record user =
  u_username :: string
  u_first_name :: string
  u_last_name :: string
  u_full_name :: string
  u_email :: string
  u_phone :: string
  u_department :: string
  u_role :: string
  u_start_date :: date
  u_employee_id :: nat

definition NUM_USERS :: nat where
  "NUM_USERS = 50"

definition OUTPUT_FILE :: string where
  "OUTPUT_FILE = ''test_users.csv''"

definition DEPARTMENTS_A :: "string list" where
  "DEPARTMENTS_A =
     [''Engineering'', ''Sales'', ''Marketing'', ''HR'', ''Finance'', ''Operations'', ''IT'', ''Support'']"

definition ROLES :: "string list" where
  "ROLES =
     [''Developer'', ''Manager'', ''Analyst'', ''Engineer'', ''Specialist'', ''Coordinator'', ''Director'']"

text \<open>The list of the three formats is built before the choice, so an empty first name
  raises IndexError whichever format is drawn.\<close>

definition generate_username_A :: "string \<Rightarrow> string \<Rightarrow> nat \<Rightarrow> string result" where
  "generate_username_A first_name last_name r =
     (case first_name of
        [] \<Rightarrow> Inl IndexError
      | c # _ \<Rightarrow>
          choice [py_lower first_name @ py_lower last_name,
                  py_lower first_name @ ''.'' @ py_lower last_name,
                  py_lower [c] @ py_lower last_name] r)"

definition generate_user :: "faker_draw_A \<Rightarrow> random_draw_A \<Rightarrow> user result" where
  "generate_user fd rd =
     (let first_name = fake_first_name fd; last_name = fake_last_name fd
      in case generate_username_A first_name last_name (format_draw rd) of
           Inl e \<Rightarrow> Inl e
         | Inr username \<Rightarrow>
             (case choice DEPARTMENTS_A (department_draw rd) of
                Inl e \<Rightarrow> Inl e
              | Inr department \<Rightarrow>
                  (case choice ROLES (role_draw rd) of
                     Inl e \<Rightarrow> Inl e
                   | Inr role \<Rightarrow>
                       Inr \<lparr>u_username = username,
                            u_first_name = first_name,
                            u_last_name = last_name,
                            u_full_name = first_name @ '' '' @ last_name,
                            u_email = fake_company_email fd,
                            u_phone = fake_phone_number fd,
                            u_department = department,
                            u_role = role,
                            u_start_date = fake_start_date fd,
                            u_employee_id = fake_random_number fd\<rparr>)))"

text \<open>\<^verbatim>\<open>for i in range(n): users.append(generate_user())\<close>: the list after \<open>n\<close> passes.\<close>

fun generate_all :: "nat \<Rightarrow> (nat \<Rightarrow> faker_draw_A) \<Rightarrow> (nat \<Rightarrow> random_draw_A) \<Rightarrow> user list result" where
  "generate_all 0 fk rnd = Inr []"
| "generate_all (Suc n) fk rnd =
     (case generate_all n fk rnd of
        Inl e \<Rightarrow> Inl e
      | Inr users \<Rightarrow>
          (case generate_user (fk n) (rnd n) of
             Inl e \<Rightarrow> Inl e
           | Inr u \<Rightarrow> Inr (users @ [u])))"

definition fieldnames :: csv_row where
  "fieldnames = [''username'', ''first_name'', ''last_name'', ''full_name'', ''email'', ''phone'',
     ''department'', ''role'', ''start_date'', ''employee_id'']"

definition user_row :: "user \<Rightarrow> csv_row" where
  "user_row u = [u_username u, u_first_name u, u_last_name u, u_full_name u, u_email u, u_phone u,
     u_department u, u_role u, isoformat (u_start_date u), py_str (u_employee_id u)]"

text \<open>\<^verbatim>\<open>main()\<close> of variant A: the first \<^verbatim>\<open>print\<close> comes first, the users are generated
  next and the file is written after (\<^verbatim>\<open>DictWriter\<close> writes the header and then, of each
  user, the fields in the order of \<open>fieldnames\<close>, the date and the number through
  \<^verbatim>\<open>str\<close>). The result is the list of users and the operating system.\<close>

definition main_A ::
  "(nat \<Rightarrow> faker_draw_A) \<Rightarrow> (nat \<Rightarrow> random_draw_A) \<Rightarrow> os_state \<Rightarrow> (user list \<times> os_state) result" where
  "main_A fk rnd os =
     (case stdout_error os of
        Some e \<Rightarrow> Inl e
      | None \<Rightarrow>
          (case generate_all NUM_USERS fk rnd of
             Inl e \<Rightarrow> Inl e
           | Inr users \<Rightarrow>
               (case open_error os OUTPUT_FILE of
                  Some e \<Rightarrow> Inl e
                | None \<Rightarrow>
                    Inr (users, os\<lparr>files := (files os)(OUTPUT_FILE \<mapsto>
                                  csv_text (fieldnames # map user_row users))\<rparr>))))"

section \<open>The patterns and notions of the specification\<close>

text \<open>The character classes \<^verbatim>\<open>[a-z]\<close>, \<^verbatim>\<open>[0-9]\<close>, \<^verbatim>\<open>[2-9]\<close> and \<^verbatim>\<open>[1-9]\<close>.\<close>

definition is_az :: "char \<Rightarrow> bool" where
  "is_az c = (97 \<le> (of_char c :: nat) \<and> (of_char c :: nat) \<le> 122)"

definition is_digit :: "char \<Rightarrow> bool" where
  "is_digit c = (48 \<le> (of_char c :: nat) \<and> (of_char c :: nat) \<le> 57)"

definition is_2to9 :: "char \<Rightarrow> bool" where
  "is_2to9 c = (50 \<le> (of_char c :: nat) \<and> (of_char c :: nat) \<le> 57)"

definition is_1to9 :: "char \<Rightarrow> bool" where
  "is_1to9 c = (49 \<le> (of_char c :: nat) \<and> (of_char c :: nat) \<le> 57)"

text \<open>The whole string matches \<^verbatim>\<open>^[a-z]+$\<close>.\<close>

definition matches_base :: "string \<Rightarrow> bool" where
  "matches_base s = (s \<noteq> [] \<and> list_all is_az s)"

text \<open>The whole string matches \<^verbatim>\<open>^[a-z]+[2-9][0-9]*$\<close>. No letter is a digit, so the
  letters of a match are the longest prefix of letters.\<close>

definition matches_disambiguated :: "string \<Rightarrow> bool" where
  "matches_disambiguated s =
     (takeWhile is_az s \<noteq> [] \<and>
      (case dropWhile is_az s of
         [] \<Rightarrow> False
       | d # ds \<Rightarrow> is_2to9 d \<and> list_all is_digit ds))"

text \<open>The whole string matches \<^verbatim>\<open>^[a-z]+([2-9]|[1-9][0-9]+)$\<close>: letters, then the decimal
  numeral of an integer from 2 on.\<close>

definition matches_numbered :: "string \<Rightarrow> bool" where
  "matches_numbered s =
     (takeWhile is_az s \<noteq> [] \<and>
      (case dropWhile is_az s of
         [] \<Rightarrow> False
       | [d] \<Rightarrow> is_2to9 d
       | d # ds \<Rightarrow> is_1to9 d \<and> list_all is_digit ds))"

text \<open>The letters A-Z and a-z, and the characters a name is made of when the username
  pattern is to hold: letters, white space, apostrophe and hyphen.\<close>

definition is_ascii_letter :: "char \<Rightarrow> bool" where
  "is_ascii_letter c =
     ((65 \<le> (of_char c :: nat) \<and> (of_char c :: nat) \<le> 90) \<or>
      (97 \<le> (of_char c :: nat) \<and> (of_char c :: nat) \<le> 122))"

definition plain_name_char :: "char \<Rightarrow> bool" where
  "plain_name_char c = (is_ascii_letter c \<or> py_isspace c \<or> c = CHR 0x27 \<or> c = CHR ''-'')"

text \<open>The first character of the name that is not white space is a letter; and the name
  has a character that is not white space.\<close>

definition begins_with_letter :: "string \<Rightarrow> bool" where
  "begins_with_letter s =
     (case dropWhile py_isspace s of [] \<Rightarrow> False | c # _ \<Rightarrow> is_ascii_letter c)"

definition nonblank :: "string \<Rightarrow> bool" where
  "nonblank s = (\<not> list_all py_isspace s)"

text \<open>\<^verbatim>\<open>s.split(sep)\<close> for a one-character separator: the tokens of a joined field.\<close>

fun split_on :: "char \<Rightarrow> string \<Rightarrow> string list" where
  "split_on sep [] = [[]]"
| "split_on sep (c # cs) =
     (if c = sep then [] # split_on sep cs
      else (case split_on sep cs of [] \<Rightarrow> [[c]] | w # ws \<Rightarrow> (c # w) # ws))"

text \<open>The number a string of decimal digits denotes (\<^verbatim>\<open>int(s)\<close>), used to tell the
  numerals of different suffixes apart.\<close>

definition digits_value :: "string \<Rightarrow> nat" where
  "digits_value s = foldl (\<lambda>a c. 10 * a + (of_char c - 48)) 0 s"






section \<open>Example inputs\<close>

text \<open>An operating system with no file in which nothing raises, and one in which the
  directory of the output path is missing.\<close>

definition plain_os :: os_state where
  "plain_os = \<lparr>files = Map.empty, stdout_error = None, open_error = (\<lambda>p. None),
     read_error = (\<lambda>p. None)\<rparr>"


text \<open>A Faker stream that returns the same name and date at every call, and two streams
  of draws of the \<^verbatim>\<open>random\<close> module that differ in the draw for the department.\<close>

definition john_smith :: "nat \<Rightarrow> faker_draw" where
  "john_smith i = \<lparr>fake_name = ''John Smith'',
     fake_date_between = \<lparr>date_year = 2027, date_month = 3, date_day = 9\<rparr>\<rparr>"

definition draws_zero :: "nat \<Rightarrow> random_draw" where
  "draws_zero i = \<lparr>choice_draw = 0, randint_draw = 0, sample_draws = (\<lambda>j. 0)\<rparr>"

definition draws_one :: "nat \<Rightarrow> random_draw" where
  "draws_one i = \<lparr>choice_draw = 1, randint_draw = 0, sample_draws = (\<lambda>j. 0)\<rparr>"

text \<open>Variant A: the same first and last name and the same format at every call.\<close>

definition john_smith_A :: "nat \<Rightarrow> faker_draw_A" where
  "john_smith_A i = \<lparr>fake_first_name = ''John'', fake_last_name = ''Smith'',
     fake_company_email = ''jsmith@example.com'', fake_phone_number = ''555-0100'',
     fake_start_date = \<lparr>date_year = 2025, date_month = 3, date_day = 9\<rparr>,
     fake_random_number = 100000 + i\<rparr>"

definition draws_zero_A :: "nat \<Rightarrow> random_draw_A" where
  "draws_zero_A i = \<lparr>format_draw = 0, department_draw = 0, role_draw = 0\<rparr>"

section \<open>Decimal numerals\<close>

declare py_str.simps [simp del]

lemma of_char_digit_char: "d < 10 \<Longrightarrow> (of_char (digit_char d) :: nat) = 48 + d"
  by (simp add: digit_char_def of_char_of)

lemma digits_value_snoc: "digits_value (s @ [c]) = 10 * digits_value s + (of_char c - 48)"
  by (simp add: digits_value_def)

lemma digits_value_py_str: "digits_value (py_str n) = n"
proof (induction n rule: py_str.induct)
  case (1 n)
  show ?case
  proof (cases "n < 10")
    case True
    then show ?thesis
      by (subst py_str.simps) (simp add: digits_value_def of_char_digit_char)
  next
    case False
    have "digits_value (py_str n) =
        10 * digits_value (py_str (n div 10)) + (of_char (digit_char (n mod 10)) - 48)"
      using False by (subst py_str.simps) (simp add: digits_value_snoc)
    also have "\<dots> = 10 * (n div 10) + n mod 10"
      using 1 False by (simp add: of_char_digit_char)
    finally show ?thesis by simp
  qed
qed

lemma py_str_inj: "py_str m = py_str n \<Longrightarrow> m = n"
  by (metis digits_value_py_str)

lemma suffixed_inj: "inj (\<lambda>j. u @ py_str j)"
  by (auto simp: inj_def dest: py_str_inj)

section \<open>The search for a free suffix\<close>

lemma free_suffix_exists:
  assumes "finite used"
  shows "\<exists>m\<ge>s. u @ py_str m \<notin> used"
proof (rule ccontr)
  assume "\<not> ?thesis"
  then have "(\<lambda>j. u @ py_str j) ` {s..} \<subseteq> used" by auto
  then have "finite ((\<lambda>j. u @ py_str j) ` {s..})"
    using assms finite_subset by blast
  then have "finite {s..}"
    using suffixed_inj [of u] by (metis finite_imageD inj_on_subset subset_UNIV)
  then show False by (simp add: infinite_Ici)
qed

lemma suffix_loop_reaches:
  "s \<le> m \<Longrightarrow> (\<forall>j. s \<le> j \<and> j < m \<longrightarrow> u @ py_str j \<in> used) \<Longrightarrow> u @ py_str m \<notin> used
     \<Longrightarrow> suffix_loop used u s = Some m"
proof (induction "m - s" arbitrary: s)
  case 0
  then have "s = m" by simp
  with 0 show ?case by (subst suffix_loop.simps) simp
next
  case (Suc d)
  then have "s < m" by simp
  then have "u @ py_str s \<in> used" using Suc.prems by simp
  moreover have "suffix_loop used u (s + 1) = Some m"
    using Suc by (intro Suc.hyps(1)) auto
  ultimately show ?case by (subst suffix_loop.simps) simp
qed

lemma suffix_loop_total:
  assumes "finite used"
  shows "\<exists>m\<ge>s. suffix_loop used u s = Some m \<and> u @ py_str m \<notin> used
           \<and> (\<forall>j. s \<le> j \<and> j < m \<longrightarrow> u @ py_str j \<in> used)"
proof -
  define P where "P m \<longleftrightarrow> s \<le> m \<and> u @ py_str m \<notin> used" for m
  have ex: "\<exists>m. P m" using free_suffix_exists [OF assms, of s u] by (auto simp: P_def)
  define m where "m = (LEAST m. P m)"
  have Pm: "P m" unfolding m_def using ex by (rule LeastI_ex)
  have below: "\<And>j. j < m \<Longrightarrow> \<not> P j" unfolding m_def by (rule not_less_Least)
  have all: "\<forall>j. s \<le> j \<and> j < m \<longrightarrow> u @ py_str j \<in> used"
    using below by (auto simp: P_def)
  have "suffix_loop used u s = Some m"
    using Pm all by (intro suffix_loop_reaches) (auto simp: P_def)
  then show ?thesis using Pm all by (auto simp: P_def)
qed

text \<open>
  Claim C10. In variant B the loop that resolves a username collision (lines 87-88)
  terminates for every finite set of used usernames: started at suffix 2 it returns a
  suffix \<open>k \<ge> 2\<close> whose combination with the base username is not in the set, and it
  reaches \<open>k\<close> by incrementing, every suffix from 2 up to \<open>k - 1\<close> being taken.
\<close>

theorem suffix_loop_terminates:
  "finite used \<Longrightarrow>
     \<exists>k. suffix_loop used base 2 = Some k \<and> 2 \<le> k \<and> base @ py_str k \<notin> used \<and>
         (\<forall>j. 2 \<le> j \<and> j < k \<longrightarrow> base @ py_str j \<in> used)"
  using suffix_loop_total [of used 2 base] by auto

theorem suffix_loop_terminates_witness:
  "finite {''jsmith'', ''jsmith2''} \<and> suffix_loop {''jsmith'', ''jsmith2''} ''jsmith'' 2 = Some 3"
proof -
  have fin: "finite {''jsmith'', ''jsmith2''}" by simp
  from suffix_loop_terminates [OF fin, of "''jsmith''"] obtain k where
    k: "suffix_loop {''jsmith'', ''jsmith2''} ''jsmith'' 2 = Some k" "2 \<le> k"
       "''jsmith'' @ py_str k \<notin> {''jsmith'', ''jsmith2''}"
       "\<forall>j. 2 \<le> j \<and> j < k \<longrightarrow> ''jsmith'' @ py_str j \<in> {''jsmith'', ''jsmith2''}"
    by blast
  have e2: "py_str 2 = ''2''" by code_simp
  have e3: "py_str 3 = ''3''" by code_simp
  have "k \<noteq> 2" using k(3) e2 by auto
  moreover have "\<not> 3 < k" using k(4) e3 by (auto dest!: spec [of _ 3])
  ultimately have "k = 3" using k(2) by arith
  with fin k(1) show ?thesis by simp
qed

section \<open>The shape of a numbered username\<close>

lemma py_str_nonempty: "py_str n \<noteq> []"
  by (subst py_str.simps) simp

lemma is_digit_digit_char: "d < 10 \<Longrightarrow> is_digit (digit_char d)"
  by (simp add: is_digit_def of_char_digit_char)

lemma py_str_digits: "list_all is_digit (py_str n)"
proof (induction n rule: py_str.induct)
  case (1 n)
  show ?case
  proof (cases "n < 10")
    case True
    then show ?thesis by (subst py_str.simps) (simp add: is_digit_digit_char)
  next
    case False
    then show ?thesis using 1 by (subst py_str.simps) (simp add: is_digit_digit_char)
  qed
qed

lemma py_str_hd: "0 < n \<Longrightarrow> is_1to9 (hd (py_str n))"
proof (induction n rule: py_str.induct)
  case (1 n)
  show ?case
  proof (cases "n < 10")
    case True
    then show ?thesis using 1(2)
      by (subst py_str.simps) (simp add: is_1to9_def of_char_digit_char)
  next
    case False
    then have "is_1to9 (hd (py_str (n div 10)))" using 1 by simp
    then show ?thesis using False
      by (subst py_str.simps) (simp add: py_str_nonempty)
  qed
qed

lemma py_str_small: "n < 10 \<Longrightarrow> py_str n = [digit_char n]"
  by (subst py_str.simps) simp

lemma py_str_long: "10 \<le> n \<Longrightarrow> 2 \<le> length (py_str n)"
  using py_str_nonempty [of "n div 10"]
  by (subst py_str.simps) (cases "py_str (n div 10)"; simp)

lemma is_az_not_digit: "is_digit c \<Longrightarrow> \<not> is_az c"
  by (simp add: is_az_def is_digit_def)

lemma matches_numbered_suffixed:
  assumes "matches_base b" "2 \<le> k"
  shows "matches_numbered (b @ py_str k)"
proof -
  obtain d ds where dds: "py_str k = d # ds"
    using py_str_nonempty [of k] by (cases "py_str k") auto
  have dig: "is_digit d" "list_all is_digit ds"
    using py_str_digits [of k] dds by auto
  have d19: "is_1to9 d" using py_str_hd [of k] assms(2) dds by simp
  have az: "list_all is_az b" "b \<noteq> []" using assms(1) by (auto simp: matches_base_def)
  have tw: "takeWhile is_az (b @ d # ds) = b"
    using az(1) dig(1) by (simp add: takeWhile_append2 list_all_iff is_az_not_digit)
  have dw: "dropWhile is_az (b @ d # ds) = d # ds"
    using az(1) dig(1) by (simp add: dropWhile_append2 list_all_iff is_az_not_digit)
  have "ds = [] \<Longrightarrow> is_2to9 d"
  proof -
    assume e: "ds = []"
    have "k < 10" using py_str_long [of k] dds e by (cases "k < 10") auto
    then have "d = digit_char k" using py_str_small [of k] dds by simp
    then show "is_2to9 d" using \<open>k < 10\<close> assms(2) by (simp add: is_2to9_def of_char_digit_char)
  qed
  then show ?thesis
    unfolding matches_numbered_def dds tw dw using az(2) dig(2) d19
    by (cases ds) auto
qed

section \<open>The duplicate check\<close>

lemma handle_duplicate_cases:
  assumes "finite used"
  shows "(base \<notin> used \<longrightarrow> handle_duplicate used base = Some base) \<and>
     (base \<in> used \<longrightarrow>
        (\<exists>k\<ge>2. handle_duplicate used base = Some (base @ py_str k) \<and> base @ py_str k \<notin> used \<and>
           (\<forall>j. 2 \<le> j \<and> j < k \<longrightarrow> base @ py_str j \<in> used)))"
  using suffix_loop_total [OF assms, of 2 base]
  by (auto simp: handle_duplicate_def)

text \<open>
  Claim C6. In variant B, for every (finite) set of used usernames and every base
  username, the username after the duplicate check of lines 85-89 is the base form when
  the base form is unused; otherwise it is the base form followed by the numeral of the
  smallest integer \<open>k \<ge> 2\<close> for which the combined string is not in the set.
\<close>

theorem handle_duplicate_smallest_suffix:
  "finite used \<Longrightarrow>
     (base \<notin> used \<longrightarrow> handle_duplicate used base = Some base) \<and>
     (base \<in> used \<longrightarrow>
        (\<exists>k. 2 \<le> k \<and> handle_duplicate used base = Some (base @ py_str k) \<and>
             base @ py_str k \<notin> used \<and>
             (\<forall>j. 2 \<le> j \<and> j < k \<longrightarrow> base @ py_str j \<in> used)))"
  using handle_duplicate_cases [of used base] by auto

theorem handle_duplicate_smallest_suffix_witness:
  "finite {''jsmith'', ''jsmith2''} \<and> ''adoe'' \<notin> {''jsmith'', ''jsmith2''} \<and>
   handle_duplicate {''jsmith'', ''jsmith2''} ''adoe'' = Some ''adoe'' \<and>
   ''jsmith'' \<in> {''jsmith'', ''jsmith2''} \<and>
   handle_duplicate {''jsmith'', ''jsmith2''} ''jsmith'' = Some ''jsmith3''"
proof -
  have fin: "finite {''jsmith'', ''jsmith2''}" by simp
  have free: "''adoe'' \<notin> {''jsmith'', ''jsmith2''}" by simp
  have taken: "''jsmith'' \<in> {''jsmith'', ''jsmith2''}" by simp
  have a: "handle_duplicate {''jsmith'', ''jsmith2''} ''adoe'' = Some ''adoe''"
    using handle_duplicate_smallest_suffix [OF fin, of "''adoe''"] free by blast
  from handle_duplicate_smallest_suffix [OF fin, of "''jsmith''"] taken obtain k where
    k: "2 \<le> k" "handle_duplicate {''jsmith'', ''jsmith2''} ''jsmith'' = Some (''jsmith'' @ py_str k)"
       "''jsmith'' @ py_str k \<notin> {''jsmith'', ''jsmith2''}"
       "\<forall>j. 2 \<le> j \<and> j < k \<longrightarrow> ''jsmith'' @ py_str j \<in> {''jsmith'', ''jsmith2''}"
    by blast
  have e2: "py_str 2 = ''2''" by code_simp
  have e3: "py_str 3 = ''3''" by code_simp
  have "k \<noteq> 2" using k(3) e2 by auto
  moreover have "\<not> 3 < k" using k(4) e3 by (auto dest!: spec [of _ 3])
  ultimately have "k = 3" using k(1) by arith
  with k(2) e3 have "handle_duplicate {''jsmith'', ''jsmith2''} ''jsmith'' = Some ''jsmith3''"
    by simp
  with fin free taken a show ?thesis by simp
qed

section \<open>Lower case, words and the base form of a username\<close>

lemma isspace_lower_char: "py_isspace (lower_char c) = py_isspace c"
  by (auto simp: py_isspace_def lower_char_def Let_def of_char_of)

lemma lower_char_letter: "is_ascii_letter c \<Longrightarrow> is_az (lower_char c)"
  by (auto simp: is_ascii_letter_def is_az_def lower_char_def Let_def of_char_of)

lemma lower_char_plain:
  "plain_name_char c \<Longrightarrow>
     is_az (lower_char c) \<or> py_isspace (lower_char c) \<or> lower_char c = CHR 0x27 \<or> lower_char c = CHR ''-''"
  unfolding plain_name_char_def
proof (elim disjE)
  assume "is_ascii_letter c"
  then show ?thesis by (simp add: lower_char_letter)
next
  assume "py_isspace c"
  then show ?thesis by (simp add: isspace_lower_char)
next
  assume "c = CHR 0x27"
  then show ?thesis by (simp add: lower_char_def)
next
  assume "c = CHR ''-''"
  then show ?thesis by (simp add: lower_char_def)
qed

lemma split_scan_chars:
  "w \<in> set (split_scan cur s) \<Longrightarrow> x \<in> set w \<Longrightarrow> x \<in> set cur \<or> (x \<in> set s \<and> \<not> py_isspace x)"
  by (induction cur s rule: split_scan.induct) (auto split: if_splits)

lemma py_split_chars:
  "w \<in> set (py_split s) \<Longrightarrow> x \<in> set w \<Longrightarrow> x \<in> set s \<and> \<not> py_isspace x"
  using split_scan_chars [of w "[]" s x] by (simp add: py_split_def)

lemma split_scan_nonempty_words: "w \<in> set (split_scan cur s) \<Longrightarrow> w \<noteq> []"
  by (induction cur s rule: split_scan.induct) (auto split: if_splits)

lemma split_scan_started:
  "cur \<noteq> [] \<Longrightarrow> split_scan cur s \<noteq> [] \<and> hd (hd (split_scan cur s)) = hd cur"
  by (induction cur s rule: split_scan.induct) auto

lemma split_scan_skip:
  "split_scan [] s = split_scan [] (dropWhile py_isspace s)"
  by (induction s) auto

lemma py_split_first:
  assumes "dropWhile py_isspace s = c # cs"
  shows "py_split s \<noteq> [] \<and> hd (hd (py_split s)) = c"
proof -
  have "\<not> py_isspace c" using assms by (metis hd_dropWhile list.distinct(1) list.sel(1))
  then have "split_scan [] (c # cs) = split_scan [c] cs" by simp
  then show ?thesis
    using split_scan_started [of "[c]" cs] split_scan_skip [of s] assms
    by (simp add: py_split_def)
qed

lemma dropWhile_isspace_lower:
  "dropWhile py_isspace (py_lower s) = py_lower (dropWhile py_isspace s)"
  by (induction s) (auto simp: py_lower_def isspace_lower_char)

lemma py_lower_Cons: "py_lower (c # cs) = lower_char c # py_lower cs"
  by (simp add: py_lower_def)

lemma py_split_words_nonempty: "w \<in> set (py_split s) \<Longrightarrow> w \<noteq> []"
  using split_scan_nonempty_words [of w "[]" s] by (simp add: py_split_def)

lemma generate_username_value:
  assumes "py_split (py_lower n) = p # ps"
  shows "generate_username n =
           Inr (py_remove (CHR ''-'') (py_remove (CHR 0x27) (if ps = [] then p else hd p # last ps)))"
proof -
  have "p \<noteq> []" using py_split_words_nonempty [of p "py_lower n"] assms by simp
  then obtain c cs where "p = c # cs" by (cases p) auto
  then show ?thesis using assms
    by (cases ps) (auto simp: generate_username_def Let_def)
qed

lemma nonblank_dropWhile: "nonblank s \<Longrightarrow> dropWhile py_isspace s \<noteq> []"
  by (simp add: nonblank_def list_all_iff)

lemma nonblank_split: "nonblank s \<Longrightarrow> py_split (py_lower s) \<noteq> []"
proof -
  assume "nonblank s"
  then obtain c cs where "dropWhile py_isspace s = c # cs"
    using nonblank_dropWhile [of s] by (cases "dropWhile py_isspace s") auto
  then have "dropWhile py_isspace (py_lower s) = lower_char c # py_lower cs"
    by (simp add: dropWhile_isspace_lower py_lower_Cons)
  then show ?thesis using py_split_first by blast
qed

lemma generate_username_returns: "nonblank s \<Longrightarrow> \<exists>u. generate_username s = Inr u"
  using nonblank_split [of s] generate_username_value [of s]
  by (cases "py_split (py_lower s)") auto

lemma generate_username_blank: "\<not> nonblank s \<Longrightarrow> generate_username s = Inl IndexError"
proof -
  assume "\<not> nonblank s"
  then have "list_all py_isspace (py_lower s)"
    by (simp add: nonblank_def py_lower_def list_all_iff isspace_lower_char)
  then have "dropWhile py_isspace (py_lower s) = []" by (simp add: list_all_iff)
  then have "py_split (py_lower s) = []"
    using split_scan_skip [of "py_lower s"] by (simp add: py_split_def del: dropWhile_eq_Nil_conv)
  then show ?thesis by (simp add: generate_username_def)
qed

lemma is_az_kept: "is_az c \<Longrightarrow> c \<noteq> CHR 0x27 \<and> c \<noteq> CHR ''-''"
  by (auto simp: is_az_def)

lemma generate_username_plain:
  assumes plain: "list_all plain_name_char n" and first: "begins_with_letter n"
  shows "\<exists>b. generate_username n = Inr b \<and> matches_base b"
proof -
  obtain c cs where dw: "dropWhile py_isspace n = c # cs" and letter: "is_ascii_letter c"
    using first by (auto simp: begins_with_letter_def split: list.splits)
  have "dropWhile py_isspace (py_lower n) = lower_char c # py_lower cs"
    using dw by (simp add: dropWhile_isspace_lower py_lower_Cons)
  then have parts: "py_split (py_lower n) \<noteq> []" "hd (hd (py_split (py_lower n))) = lower_char c"
    using py_split_first by blast+
  then obtain p ps where pps: "py_split (py_lower n) = p # ps"
    by (cases "py_split (py_lower n)") auto
  have pne: "p \<noteq> []" using py_split_words_nonempty [of p "py_lower n"] pps by simp
  have hdp: "is_az (hd p)" using parts(2) pps letter by (simp add: lower_char_letter)
  have chars: "is_az x \<or> x = CHR 0x27 \<or> x = CHR ''-''"
    if "w \<in> set (p # ps)" "x \<in> set w" for w x
  proof -
    have "x \<in> set (py_lower n)" "\<not> py_isspace x"
      using py_split_chars [of w "py_lower n" x] that pps by auto
    then obtain y where "y \<in> set n" "x = lower_char y" by (auto simp: py_lower_def)
    then show ?thesis
      using lower_char_plain [of y] plain \<open>\<not> py_isspace x\<close> by (auto simp: list_all_iff)
  qed
  define u where "u = (if ps = [] then p else hd p # last ps)"
  have uhd: "u \<noteq> []" "hd u = hd p" using pne by (auto simp: u_def)
  have uchars: "is_az x \<or> x = CHR 0x27 \<or> x = CHR ''-''" if "x \<in> set u" for x
  proof (cases "ps = []")
    case True
    then show ?thesis using that chars [of p x] by (simp add: u_def)
  next
    case False
    then have "last ps \<in> set ps" by simp
    then show ?thesis using that False chars [of "last ps" x] hdp by (auto simp: u_def)
  qed
  define b where "b = py_remove (CHR ''-'') (py_remove (CHR 0x27) u)"
  have "generate_username n = Inr b"
    using generate_username_value [OF pps] by (simp add: b_def u_def)
  moreover have "list_all is_az b"
    using uchars by (auto simp: b_def py_remove_def list_all_iff)
  moreover have "hd u \<in> set b"
    using uhd hdp is_az_kept [of "hd u"] hd_in_set [of u] by (auto simp: b_def py_remove_def)
  ultimately show ?thesis by (auto simp: matches_base_def)
qed

section \<open>The pattern of a username\<close>

text \<open>
  Claim C5 as the specification states it: for every full name the base form matches
  \<^verbatim>\<open>^[a-z]+$\<close> and every disambiguated username matches \<^verbatim>\<open>^[a-z]+[2-9][0-9]*$\<close>.
  The code removes apostrophes and hyphens only, so the full stop of a name suffix
  stays; a name made of hyphens gives the empty username; and the tenth user with one
  base form gets the suffix 10, whose first digit is 1.
\<close>

theorem username_pattern_counterexample:
  "generate_username ''John Smith Jr.'' = Inr ''jjr.'' \<and> \<not> matches_base ''jjr.'' \<and>
   generate_username ''-'' = Inr [] \<and> \<not> matches_base [] \<and>
   handle_duplicate {''jsmith'', ''jsmith2'', ''jsmith3'', ''jsmith4'', ''jsmith5'', ''jsmith6'',
       ''jsmith7'', ''jsmith8'', ''jsmith9''} ''jsmith'' = Some ''jsmith10'' \<and>
   \<not> matches_disambiguated ''jsmith10''"
proof -
  have "generate_username ''John Smith Jr.'' = Inr ''jjr.''" by code_simp
  moreover have "\<not> matches_base ''jjr.''" by code_simp
  moreover have "generate_username ''-'' = Inr []" by code_simp
  moreover have "\<not> matches_base []" by code_simp
  moreover have "handle_duplicate {''jsmith'', ''jsmith2'', ''jsmith3'', ''jsmith4'', ''jsmith5'',
       ''jsmith6'', ''jsmith7'', ''jsmith8'', ''jsmith9''} ''jsmith'' = Some ''jsmith10''"
    by code_simp
  moreover have "\<not> matches_disambiguated ''jsmith10''" by code_simp
  ultimately show ?thesis by blast
qed

text \<open>
  Claim C5, amended. For every full name made of ASCII letters, white space, apostrophes
  and hyphens whose first word begins with a letter, \<open>generate_username\<close> returns a
  base form that matches \<^verbatim>\<open>^[a-z]+$\<close>; and every disambiguated username, the base form
  followed by the numeral of an integer from 2 on, matches
  \<^verbatim>\<open>^[a-z]+([2-9]|[1-9][0-9]+)$\<close>; the duplicate check returns such a username whenever
  the base form is taken.
\<close>

theorem generate_username_pattern:
  "list_all plain_name_char full_name \<Longrightarrow> begins_with_letter full_name \<Longrightarrow>
     \<exists>base. generate_username full_name = Inr base \<and> matches_base base \<and>
        (\<forall>k. 2 \<le> k \<longrightarrow> matches_numbered (base @ py_str k)) \<and>
        (\<forall>used. finite used \<and> base \<in> used \<longrightarrow>
           (\<exists>k. 2 \<le> k \<and> handle_duplicate used base = Some (base @ py_str k) \<and>
                matches_numbered (base @ py_str k)))"
proof -
  assume "list_all plain_name_char full_name" "begins_with_letter full_name"
  then obtain b where b: "generate_username full_name = Inr b" "matches_base b"
    using generate_username_plain by blast
  have num: "\<forall>k. 2 \<le> k \<longrightarrow> matches_numbered (b @ py_str k)"
    using b(2) by (simp add: matches_numbered_suffixed)
  have "\<exists>k. 2 \<le> k \<and> handle_duplicate used b = Some (b @ py_str k) \<and>
            matches_numbered (b @ py_str k)"
    if "finite used" "b \<in> used" for used
    using handle_duplicate_cases [OF that(1), of b] that(2) num by auto
  with b num show ?thesis by blast
qed

theorem generate_username_pattern_witness:
  "list_all plain_name_char ''John Smith'' \<and> begins_with_letter ''John Smith'' \<and>
   generate_username ''John Smith'' = Inr ''jsmith'' \<and> matches_base ''jsmith'' \<and>
   matches_numbered ''jsmith10''"
proof -
  have p: "list_all plain_name_char ''John Smith''" by code_simp
  have f: "begins_with_letter ''John Smith''" by code_simp
  have g: "generate_username ''John Smith'' = Inr ''jsmith''" by code_simp
  have e: "''jsmith'' @ py_str 10 = ''jsmith10''" by code_simp
  from generate_username_pattern [OF p f] g
  have "matches_base ''jsmith''" "\<forall>k. 2 \<le> k \<longrightarrow> matches_numbered (''jsmith'' @ py_str k)"
    by auto
  then have "matches_base ''jsmith''" "matches_numbered (''jsmith'' @ py_str 10)"
    by auto
  with p f g e show ?thesis by simp
qed

section \<open>Group selection\<close>

lemma choice_member: "seq \<noteq> [] \<Longrightarrow> \<exists>x. choice seq r = Inr x \<and> x \<in> set seq"
  by (simp add: choice_def)

lemma randint_range: "a \<le> b \<Longrightarrow> \<exists>k. randint a b r = Inr k \<and> a \<le> k \<and> k \<le> b"
proof -
  assume "a \<le> b"
  then have "0 < nat (b - a + 1)" by simp
  then have "r mod nat (b - a + 1) < nat (b - a + 1)" by (rule mod_less_divisor)
  then have "int (r mod nat (b - a + 1)) \<le> b - a" using \<open>a \<le> b\<close> by linarith
  then show ?thesis using \<open>a \<le> b\<close> by (simp add: randint_def)
qed

lemma pool_remove:
  assumes "distinct pool" "j < length pool"
  shows "set (butlast (pool[j := last pool])) = set pool - {pool ! j} \<and>
         distinct (butlast (pool[j := last pool])) \<and>
         length (butlast (pool[j := last pool])) = length pool - 1"
proof -
  from assms(2) have "pool \<noteq> []" by auto
  then obtain xs l where pool: "pool = xs @ [l]" by (metis rev_exhaust)
  with assms(1) have d: "distinct xs" "l \<notin> set xs" by auto
  show ?thesis
  proof (cases "j < length xs")
    case True
    then have upd: "pool[j := last pool] = xs[j := l] @ [l]"
      by (simp add: pool list_update_append1)
    have "set (xs[j := l]) = insert l (set xs - {xs ! j})"
      using d(1) True by (rule set_update_distinct)
    moreover have "distinct (xs[j := l])"
      using d True by (intro distinct_list_update) auto
    moreover have "pool ! j = xs ! j" using True by (simp add: pool nth_append)
    moreover have "xs ! j \<in> set xs" using True by simp
    ultimately show ?thesis using d upd by (auto simp: pool)
  next
    case False
    then have j: "j = length xs" using assms(2) by (simp add: pool)
    then have "pool[j := last pool] = pool" by (simp add: pool)
    then show ?thesis using d j by (auto simp: pool)
  qed
qed

lemma sample_pool_props:
  "distinct pool \<Longrightarrow> k \<le> length pool \<Longrightarrow>
     length (sample_pool pool k js i) = k \<and> set (sample_pool pool k js i) \<subseteq> set pool \<and>
     distinct (sample_pool pool k js i)"
proof (induction k arbitrary: pool i)
  case 0
  then show ?case by simp
next
  case (Suc k)
  define j where "j = js i mod length pool"
  define pool' where "pool' = butlast (pool[j := last pool])"
  have len: "0 < length pool" using Suc.prems(2) by (cases pool) auto
  then have j: "j < length pool" by (simp add: j_def)
  have r: "set pool' = set pool - {pool ! j}" "distinct pool'" "length pool' = length pool - 1"
    using pool_remove [OF Suc.prems(1) j] by (simp_all add: pool'_def)
  have "k \<le> length pool'" using r(3) Suc.prems(2) by simp
  then have ih: "length (sample_pool pool' k js (Suc i)) = k"
    "set (sample_pool pool' k js (Suc i)) \<subseteq> set pool'" "distinct (sample_pool pool' k js (Suc i))"
    using Suc.IH [OF r(2), of "Suc i"] by simp_all
  have eq: "sample_pool pool (Suc k) js i = pool ! j # sample_pool pool' k js (Suc i)"
    by (simp add: j_def pool'_def Let_def)
  have "pool ! j \<in> set pool" using j by simp
  with ih r(1) show ?case unfolding eq by auto
qed

lemma sample_props:
  "distinct population \<Longrightarrow> 0 \<le> k \<Longrightarrow> k \<le> int (length population) \<Longrightarrow>
     \<exists>xs. sample population k js = Inr xs \<and> int (length xs) = k \<and> set xs \<subseteq> set population \<and>
          distinct xs"
  using sample_pool_props [of population "nat k" js 0] by (auto simp: sample_def)

lemma split_on_word: "sep \<notin> set w \<Longrightarrow> split_on sep w = [w]"
  by (induction w) auto

lemma split_on_append:
  "sep \<notin> set w \<Longrightarrow> split_on sep (w @ sep # rest) = w # split_on sep rest"
  by (induction w) auto

lemma split_on_join:
  "xs \<noteq> [] \<Longrightarrow> \<forall>w\<in>set xs. sep \<notin> set w \<Longrightarrow> split_on sep (py_join [sep] xs) = xs"
  by (induction "[sep]" xs rule: py_join.induct) (auto simp: split_on_word split_on_append)

lemma GROUPS_departments:
  "d \<in> set DEPARTMENTS \<Longrightarrow>
     \<exists>g. GROUPS d = Some g \<and> g \<noteq> [] \<and> distinct g \<and> (\<forall>w\<in>set g. CHR '';'' \<notin> set w)"
  by (auto simp: DEPARTMENTS_def GROUPS_def)

lemma select_groups_structure:
  assumes "GROUPS d = Some g" "g \<noteq> []" "distinct g"
  shows "\<exists>sel. select_groups d rd = Inr (py_join '';'' (sort sel)) \<and>
           (length sel = 1 \<or> length sel = 2) \<and> set sel \<subseteq> set g \<and> distinct sel"
proof -
  have "1 \<le> min 2 (int (length g))" using assms(2) by (cases g) auto
  then obtain k where k: "randint 1 (min 2 (int (length g))) (randint_draw rd) = Inr k"
    "1 \<le> k" "k \<le> min 2 (int (length g))"
    using randint_range by blast
  then have "0 \<le> k" "k \<le> int (length g)" by auto
  then obtain sel where sel: "sample g k (sample_draws rd) = Inr sel" "int (length sel) = k"
    "set sel \<subseteq> set g" "distinct sel"
    using sample_props [OF assms(3)] by blast
  have "length sel = 1 \<or> length sel = 2" using sel(2) k(2,3) by auto
  then show ?thesis using assms(1) k(1) sel by (auto simp: select_groups_def)
qed

text \<open>
  Claim C9. In variant B every department that can be selected, that is every element of
  \<open>DEPARTMENTS\<close> and so every result of \<^verbatim>\<open>random.choice(DEPARTMENTS)\<close>, is a key of
  \<open>GROUPS\<close>; the lookup inside \<open>select_groups\<close> never fails, and \<open>select_groups\<close>
  returns a value for every department of the vocabulary and every draw.
\<close>

theorem select_groups_total:
  "(\<exists>d. choice DEPARTMENTS r = Inr d \<and> d \<in> set DEPARTMENTS) \<and>
   (\<forall>d\<in>set DEPARTMENTS. d \<in> dom GROUPS \<and> (\<exists>g. select_groups d rd = Inr g))"
proof -
  have "DEPARTMENTS \<noteq> []" by (simp add: DEPARTMENTS_def)
  then have "\<exists>d. choice DEPARTMENTS r = Inr d \<and> d \<in> set DEPARTMENTS"
    by (rule choice_member)
  moreover have "d \<in> dom GROUPS \<and> (\<exists>g. select_groups d rd = Inr g)"
    if mem: "d \<in> set DEPARTMENTS" for d
  proof -
    obtain g where g: "GROUPS d = Some g" "g \<noteq> []" "distinct g"
      using GROUPS_departments [OF mem] by blast
    then show ?thesis using select_groups_structure [OF g, of rd] by auto
  qed
  ultimately show ?thesis by blast
qed

theorem select_groups_total_witness:
  "''Legal'' \<in> set DEPARTMENTS \<and> ''Legal'' \<in> dom GROUPS \<and>
   select_groups ''Legal'' \<lparr>choice_draw = 6, randint_draw = 1, sample_draws = (\<lambda>i. 0)\<rparr>
     = Inr ''compliance;legal''"
proof -
  have m: "''Legal'' \<in> set DEPARTMENTS" by (simp add: DEPARTMENTS_def)
  have d: "''Legal'' \<in> dom GROUPS"
    using select_groups_total [of 6 "\<lparr>choice_draw = 6, randint_draw = 1, sample_draws = (\<lambda>i. 0)\<rparr>"] m
    by blast
  have "select_groups ''Legal'' \<lparr>choice_draw = 6, randint_draw = 1, sample_draws = (\<lambda>i. 0)\<rparr>
     = Inr ''compliance;legal''"
    by code_simp
  with m d show ?thesis by simp
qed

text \<open>
  Claim C7. For every department of the variant-B vocabulary and every draw, the groups
  field that \<open>select_groups\<close> returns holds one or two tokens separated by semicolons;
  each token is a group of that department, the tokens are pairwise distinct and they
  stand in lexicographic order.
\<close>

theorem select_groups_tokens:
  "d \<in> set DEPARTMENTS \<Longrightarrow>
     \<exists>g avail. GROUPS d = Some avail \<and> select_groups d rd = Inr g \<and>
        (length (split_on (CHR '';'') g) = 1 \<or> length (split_on (CHR '';'') g) = 2) \<and>
        set (split_on (CHR '';'') g) \<subseteq> set avail \<and>
        distinct (split_on (CHR '';'') g) \<and> sorted (split_on (CHR '';'') g)"
proof -
  assume "d \<in> set DEPARTMENTS"
  then obtain avail where a: "GROUPS d = Some avail" "avail \<noteq> []" "distinct avail"
    "\<forall>w\<in>set avail. CHR '';'' \<notin> set w"
    using GROUPS_departments by blast
  obtain sel where sel: "select_groups d rd = Inr (py_join '';'' (sort sel))"
    "length sel = 1 \<or> length sel = 2" "set sel \<subseteq> set avail" "distinct sel"
    using select_groups_structure [OF a(1,2,3), of rd] by blast
  have "sort sel \<noteq> []" using sel(2) by (cases sel) auto
  moreover have "\<forall>w\<in>set (sort sel). CHR '';'' \<notin> set w" using sel(3) a(4) by auto
  ultimately have "split_on (CHR '';'') (py_join '';'' (sort sel)) = sort sel"
    by (rule split_on_join)
  then show ?thesis using a(1) sel by auto
qed

theorem select_groups_tokens_witness:
  "''IT'' \<in> set DEPARTMENTS \<and>
   select_groups ''IT'' \<lparr>choice_draw = 0, randint_draw = 1, sample_draws = (\<lambda>i. 1)\<rparr>
     = Inr ''support;sysadmins'' \<and>
   split_on (CHR '';'') ''support;sysadmins'' = [''support'', ''sysadmins''] \<and>
   sorted [''support'', ''sysadmins''] \<and> distinct [''support'', ''sysadmins'']"
proof -
  have m: "''IT'' \<in> set DEPARTMENTS" by (simp add: DEPARTMENTS_def)
  have g: "select_groups ''IT'' \<lparr>choice_draw = 0, randint_draw = 1, sample_draws = (\<lambda>i. 1)\<rparr>
     = Inr ''support;sysadmins''"
    by code_simp
  have t: "split_on (CHR '';'') ''support;sysadmins'' = [''support'', ''sysadmins'']"
    by code_simp
  from select_groups_tokens [OF m, of "\<lparr>choice_draw = 0, randint_draw = 1, sample_draws = (\<lambda>i. 1)\<rparr>"]
  have "sorted [''support'', ''sysadmins''] \<and> distinct [''support'', ''sysadmins'']"
    unfolding g by (auto simp: t)
  with m g t show ?thesis by simp
qed

section \<open>The generation loop of variant B\<close>

declare generate_users_loop.simps [simp del]

lemma handle_duplicate_returns:
  "finite used \<Longrightarrow> \<exists>u. handle_duplicate used base = Some u \<and> u \<notin> used"
  using handle_duplicate_cases [of used base] by (cases "base \<in> used") auto

lemma generate_row_returns:
  assumes "finite used"
  shows "generate_row used fd rd \<noteq> None"
proof (cases "generate_username (fake_name fd)")
  case (Inl e)
  then show ?thesis by (simp add: generate_row_def)
next
  case (Inr base)
  obtain u where "handle_duplicate used base = Some u"
    using handle_duplicate_returns [OF assms] by blast
  with Inr show ?thesis
    by (simp add: generate_row_def Let_def split: sum.splits)
qed

lemma generate_row_fields:
  assumes "generate_row used fd rd = Some (Inr (u, row))"
  shows "\<exists>base d g. generate_username (fake_name fd) = Inr base \<and>
           handle_duplicate used base = Some u \<and>
           choice DEPARTMENTS (choice_draw rd) = Inr d \<and> select_groups d rd = Inr g \<and>
           row = [u, fake_name fd, generate_email u ''techcorp.com'', d, g, generate_expiry_date fd]"
  using assms by (auto simp: generate_row_def Let_def split: sum.splits option.splits)

lemma generate_row_fresh:
  assumes "generate_row used fd rd = Some (Inr (u, row))" "finite used"
  shows "hd row = u \<and> u \<notin> used"
proof -
  obtain base where "handle_duplicate used base = Some u" "hd row = u"
    using generate_row_fields [OF assms(1)] by auto
  then show ?thesis using handle_duplicate_returns [OF assms(2), of base] by auto
qed

lemma generate_row_nonblank:
  assumes "nonblank (fake_name fd)" "finite used"
  shows "\<exists>u row. generate_row used fd rd = Some (Inr (u, row))"
proof -
  obtain base where b: "generate_username (fake_name fd) = Inr base"
    using generate_username_returns [OF assms(1)] by blast
  obtain u where u: "handle_duplicate used base = Some u"
    using handle_duplicate_returns [OF assms(2)] by blast
  have "DEPARTMENTS \<noteq> []" by (simp add: DEPARTMENTS_def)
  then obtain d where d: "choice DEPARTMENTS (choice_draw rd) = Inr d" "d \<in> set DEPARTMENTS"
    using choice_member by blast
  obtain av where av: "GROUPS d = Some av" "av \<noteq> []" "distinct av"
    using GROUPS_departments [OF d(2)] by blast
  obtain g where g: "select_groups d rd = Inr g"
    using select_groups_structure [OF av, of rd] by blast
  show ?thesis using b u d(1) g by (simp add: generate_row_def Let_def)
qed

lemma generate_users_loop_invariant:
  "finite (usernames_used st) \<Longrightarrow> 0 \<le> users_generated st \<Longrightarrow> f_rows st = header # rows0 \<Longrightarrow>
   length rows0 = nat (users_generated st) \<Longrightarrow> usernames_used st = set (map hd rows0) \<Longrightarrow>
   distinct (map hd rows0) \<Longrightarrow>
   (\<forall>i<length rows0. generate_row (set (map hd (take i rows0))) (fk i) (rnd i)
        = Some (Inr (hd (rows0 ! i), rows0 ! i))) \<Longrightarrow>
   \<exists>err rows. generate_users_loop count fk rnd st = Some (err, header # rows) \<and>
      distinct (map hd rows) \<and>
      (\<forall>i<length rows. generate_row (set (map hd (take i rows))) (fk i) (rnd i)
           = Some (Inr (hd (rows ! i), rows ! i))) \<and>
      (case err of
         None \<Rightarrow> length rows = nat (max count (users_generated st))
       | Some e \<Rightarrow> length rows < nat count \<and>
           generate_row (set (map hd rows)) (fk (length rows)) (rnd (length rows)) = Some (Inl e))"
proof (induction count fk rnd st arbitrary: rows0 rule: generate_users_loop.induct)
  case (1 count fk rnd st)
  let ?n = "nat (users_generated st)"
  show ?case
  proof (cases "users_generated st < count")
    case False
    then have "generate_users_loop count fk rnd st = Some (None, header # rows0)"
      using "1.prems"(3) by (subst generate_users_loop.simps) simp
    moreover have "length rows0 = nat (max count (users_generated st))"
      using False "1.prems"(4) by (simp add: max_def)
    ultimately show ?thesis using "1.prems"(6,7) by auto
  next
    case True
    have used: "generate_row (usernames_used st) (fk ?n) (rnd ?n)
                  = generate_row (set (map hd rows0)) (fk (length rows0)) (rnd (length rows0))"
      using "1.prems"(4,5) by simp
    obtain res where res: "generate_row (usernames_used st) (fk ?n) (rnd ?n) = Some res"
      using generate_row_returns [OF "1.prems"(1), of "fk ?n" "rnd ?n"] by auto
    show ?thesis
    proof (cases res)
      case (Inl e)
      then have "generate_users_loop count fk rnd st = Some (Some e, header # rows0)"
        using True res "1.prems"(3) by (subst generate_users_loop.simps) simp
      moreover have "length rows0 < nat count" using True "1.prems"(2,4) by simp
      ultimately show ?thesis using "1.prems"(6,7) used res Inl by auto
    next
      case (Inr ur)
      obtain u row where ur: "ur = (u, row)" by (cases ur)
      define st' where "st' = \<lparr>usernames_used = insert u (usernames_used st),
          users_generated = users_generated st + 1, f_rows = f_rows st @ [row]\<rparr>"
      have row: "generate_row (usernames_used st) (fk ?n) (rnd ?n) = Some (Inr (u, row))"
        using res Inr ur by simp
      have fresh: "hd row = u" "u \<notin> usernames_used st"
        using generate_row_fresh [OF row "1.prems"(1)] by auto
      have step: "generate_users_loop count fk rnd st = generate_users_loop count fk rnd st'"
        using True row by (subst generate_users_loop.simps) (simp add: st'_def)
      have p1: "finite (usernames_used st')" using "1.prems"(1) by (simp add: st'_def)
      have p2: "0 \<le> users_generated st'" using "1.prems"(2) by (simp add: st'_def)
      have p3: "f_rows st' = header # (rows0 @ [row])" using "1.prems"(3) by (simp add: st'_def)
      have p4: "length (rows0 @ [row]) = nat (users_generated st')"
        using "1.prems"(2,4) by (simp add: st'_def nat_add_distrib)
      have p5: "usernames_used st' = set (map hd (rows0 @ [row]))"
        using "1.prems"(5) fresh(1) by (simp add: st'_def)
      have p6: "distinct (map hd (rows0 @ [row]))"
        using "1.prems"(5,6) fresh by simp
      have p7: "\<forall>i<length (rows0 @ [row]).
          generate_row (set (map hd (take i (rows0 @ [row])))) (fk i) (rnd i)
            = Some (Inr (hd ((rows0 @ [row]) ! i), (rows0 @ [row]) ! i))"
      proof (intro allI impI)
        fix i assume "i < length (rows0 @ [row])"
        then consider "i < length rows0" | "i = length rows0" by fastforce
        then show "generate_row (set (map hd (take i (rows0 @ [row])))) (fk i) (rnd i)
            = Some (Inr (hd ((rows0 @ [row]) ! i), (rows0 @ [row]) ! i))"
        proof cases
          case 1
          then show ?thesis using "1.prems"(7) by (simp add: nth_append)
        next
          case 2
          then show ?thesis using row used fresh(1) by simp
        qed
      qed
      have "\<exists>err rows. generate_users_loop count fk rnd st' = Some (err, header # rows) \<and>
          distinct (map hd rows) \<and>
          (\<forall>i<length rows. generate_row (set (map hd (take i rows))) (fk i) (rnd i)
               = Some (Inr (hd (rows ! i), rows ! i))) \<and>
          (case err of
             None \<Rightarrow> length rows = nat (max count (users_generated st'))
           | Some e \<Rightarrow> length rows < nat count \<and>
               generate_row (set (map hd rows)) (fk (length rows)) (rnd (length rows)) = Some (Inl e))"
        using "1.IH" [OF True row refl refl p1 [unfolded st'_def] p2 [unfolded st'_def]
            p3 [unfolded st'_def] p4 [unfolded st'_def] p5 [unfolded st'_def] p6 p7]
        unfolding st'_def .
      moreover have "max count (users_generated st') = max count (users_generated st)"
        using True by (simp add: st'_def)
      ultimately show ?thesis unfolding step by (auto split: option.splits)
    qed
  qed
qed

lemma generate_users_loop_run:
  "\<exists>err rows. generate_users_loop count fk rnd start_state = Some (err, header # rows) \<and>
      distinct (map hd rows) \<and>
      (\<forall>i<length rows. generate_row (set (map hd (take i rows))) (fk i) (rnd i)
           = Some (Inr (hd (rows ! i), rows ! i))) \<and>
      (case err of
         None \<Rightarrow> length rows = nat count
       | Some e \<Rightarrow> length rows < nat count \<and>
           generate_row (set (map hd rows)) (fk (length rows)) (rnd (length rows)) = Some (Inl e))"
proof -
  have "\<exists>err rows. generate_users_loop count fk rnd start_state = Some (err, header # rows) \<and>
      distinct (map hd rows) \<and>
      (\<forall>i<length rows. generate_row (set (map hd (take i rows))) (fk i) (rnd i)
           = Some (Inr (hd (rows ! i), rows ! i))) \<and>
      (case err of
         None \<Rightarrow> length rows = nat (max count (users_generated start_state))
       | Some e \<Rightarrow> length rows < nat count \<and>
           generate_row (set (map hd rows)) (fk (length rows)) (rnd (length rows)) = Some (Inl e))"
    by (rule generate_users_loop_invariant [where ?rows0.0 = "[]"]) (simp_all add: start_state_def)
  moreover have "nat (max count (users_generated start_state)) = nat count"
    by (simp add: start_state_def max_def)
  ultimately show ?thesis by (auto split: option.splits)
qed


lemma generate_users_outcome:
  "generate_users_loop count fk rnd start_state = Some (err, rows) \<Longrightarrow>
     generate_users count output_file fk rnd os =
       (case stdout_error os of
          Some e \<Rightarrow> Some (Some e, os)
        | None \<Rightarrow>
            (case open_error os output_file of
               Some e \<Rightarrow> Some (Some e, os)
             | None \<Rightarrow>
                 Some (case err of Some e \<Rightarrow> Some e | None \<Rightarrow> read_error os output_file,
                       os\<lparr>files := (files os)(output_file \<mapsto> csv_text rows)\<rparr>)))"
  by (simp add: generate_users_def Let_def split: option.splits)

lemma generate_rows_complete:
  assumes count: "0 \<le> count" and names: "\<forall>i<nat count. nonblank (fake_name (fk i))"
  shows "\<exists>rows. generate_users_loop count fk rnd start_state = Some (None, header # rows) \<and>
      length rows = nat count \<and>
      (\<forall>i<nat count. generate_row (set (map hd (take i rows))) (fk i) (rnd i)
           = Some (Inr (hd (rows ! i), rows ! i)))"
proof -
  obtain err rows where r:
    "generate_users_loop count fk rnd start_state = Some (err, header # rows)"
    "\<forall>i<length rows. generate_row (set (map hd (take i rows))) (fk i) (rnd i)
           = Some (Inr (hd (rows ! i), rows ! i))"
    "case err of
         None \<Rightarrow> length rows = nat count
       | Some e \<Rightarrow> length rows < nat count \<and>
           generate_row (set (map hd rows)) (fk (length rows)) (rnd (length rows)) = Some (Inl e)"
    using generate_users_loop_run [of count fk rnd] by blast
  have none: "err = None"
  proof (cases err)
    case None
    then show ?thesis .
  next
    case (Some e)
    then have "length rows < nat count"
      "generate_row (set (map hd rows)) (fk (length rows)) (rnd (length rows)) = Some (Inl e)"
      using r(3) by auto
    moreover have "\<exists>u row. generate_row (set (map hd rows)) (fk (length rows)) (rnd (length rows))
        = Some (Inr (u, row))"
      using names calculation(1) by (intro generate_row_nonblank) auto
    ultimately show ?thesis by auto
  qed
  then have "length rows = nat count" using r(3) by simp
  with r(1,2) none show ?thesis by auto
qed

section \<open>The text of the file and its lines\<close>

lemma csv_text_Cons: "csv_text (r # rs) = writerow r @ csv_text rs"
  by (simp add: csv_text_def)




















lemma choice_in_set: "choice seq r = Inr x \<Longrightarrow> x \<in> set seq"
  by (auto simp: choice_def split: if_splits)





section \<open>A negative count\<close>




section \<open>The number of lines of the file\<close>




section \<open>Uniqueness of usernames\<close>

lemma generate_all_map:
  "(\<forall>i<n. generate_user (fk i) (rnd i) = Inr (f i)) \<Longrightarrow> generate_all n fk rnd = Inr (map f [0..<n])"
  by (induction n) auto

lemma generate_user_john_smith_A:
  "\<exists>u. generate_user (john_smith_A i) (draws_zero_A i) = Inr u \<and> u_username u = ''johnsmith''"
proof -
  have "generate_username_A ''John'' ''Smith'' 0 = Inr ''johnsmith''" by code_simp
  moreover have "\<exists>d. choice DEPARTMENTS_A 0 = Inr d" by (simp add: choice_def DEPARTMENTS_A_def)
  moreover have "\<exists>r. choice ROLES 0 = Inr r" by (simp add: choice_def ROLES_def)
  ultimately show ?thesis
    by (auto simp: generate_user_def john_smith_A_def draws_zero_A_def Let_def)
qed

text \<open>
  Claim C2 as the specification states it, for both variants: the usernames of a run are
  pairwise distinct. Variant A keeps no set of used usernames and checks nothing: when
  Faker returns the same first and last name twice and the same format is drawn, the two
  users get the same username.
\<close>

theorem usernames_distinct_counterexample:
  "\<exists>users os'. main_A john_smith_A draws_zero_A plain_os = Inr (users, os') \<and>
      length users = 50 \<and> u_username (users ! 0) = ''johnsmith'' \<and>
      u_username (users ! 1) = ''johnsmith'' \<and> \<not> distinct (map u_username users)"
proof -
  obtain f where f: "\<And>i. generate_user (john_smith_A i) (draws_zero_A i) = Inr (f i)"
    "\<And>i. u_username (f i) = ''johnsmith''"
    using generate_user_john_smith_A by metis
  define users where "users = map f [0..<NUM_USERS]"
  have all: "generate_all NUM_USERS john_smith_A draws_zero_A = Inr users"
    unfolding users_def by (rule generate_all_map) (simp add: f(1))
  have len: "length users = 50" by (simp add: users_def NUM_USERS_def)
  have u0: "u_username (users ! 0) = ''johnsmith''" and u1: "u_username (users ! 1) = ''johnsmith''"
    by (simp_all add: users_def NUM_USERS_def f(2))
  have same: "map u_username users ! 0 = map u_username users ! 1" using u0 u1 len by simp
  have nd: "\<not> distinct (map u_username users)"
  proof
    assume "distinct (map u_username users)"
    then have "(map u_username users ! 0 = map u_username users ! 1) = ((0 :: nat) = 1)"
      using len by (intro nth_eq_iff_index_eq) simp_all
    with same show False by simp
  qed
  have "\<exists>os'. main_A john_smith_A draws_zero_A plain_os = Inr (users, os')"
    using all by (simp add: main_A_def plain_os_def)
  then show ?thesis using len u0 u1 nd by blast
qed

lemma generate_users_usernames:
  "\<exists>err rows. generate_users_loop count fk rnd start_state = Some (err, header # rows) \<and>
      distinct (map hd rows) \<and>
      (\<forall>i<length rows. \<exists>base. generate_username (fake_name (fk i)) = Inr base \<and>
          (if base \<in> set (map hd (take i rows))
           then (\<exists>k. 2 \<le> k \<and> hd (rows ! i) = base @ py_str k \<and>
                   (\<forall>j. 2 \<le> j \<and> j < k \<longrightarrow> base @ py_str j \<in> set (map hd (take i rows))))
           else hd (rows ! i) = base)) \<and>
      (\<exists>e. generate_users count output_file fk rnd os
              = Some (e, if stdout_error os = None \<and> open_error os output_file = None
                         then os\<lparr>files := (files os)(output_file \<mapsto> csv_text (header # rows))\<rparr>
                         else os))"
proof -
  obtain err rows where r:
    "generate_users_loop count fk rnd start_state = Some (err, header # rows)"
    "distinct (map hd rows)"
    "\<forall>i<length rows. generate_row (set (map hd (take i rows))) (fk i) (rnd i)
           = Some (Inr (hd (rows ! i), rows ! i))"
    using generate_users_loop_run [of count fk rnd] by blast
  have "\<exists>base. generate_username (fake_name (fk i)) = Inr base \<and>
          (if base \<in> set (map hd (take i rows))
           then (\<exists>k. 2 \<le> k \<and> hd (rows ! i) = base @ py_str k \<and>
                   (\<forall>j. 2 \<le> j \<and> j < k \<longrightarrow> base @ py_str j \<in> set (map hd (take i rows))))
           else hd (rows ! i) = base)"
    if "i < length rows" for i
  proof -
    let ?used = "set (map hd (take i rows))"
    have "generate_row ?used (fk i) (rnd i) = Some (Inr (hd (rows ! i), rows ! i))"
      using r(3) that by simp
    then obtain base where b: "generate_username (fake_name (fk i)) = Inr base"
      "handle_duplicate ?used base = Some (hd (rows ! i))"
      using generate_row_fields by blast
    have "finite ?used" by simp
    from handle_duplicate_cases [OF this, of base] b(2)
    have "if base \<in> ?used
           then (\<exists>k. 2 \<le> k \<and> hd (rows ! i) = base @ py_str k \<and>
                   (\<forall>j. 2 \<le> j \<and> j < k \<longrightarrow> base @ py_str j \<in> ?used))
           else hd (rows ! i) = base"
      by (cases "base \<in> ?used") auto
    with b(1) show ?thesis by blast
  qed
  moreover have "\<exists>e. generate_users count output_file fk rnd os
              = Some (e, if stdout_error os = None \<and> open_error os output_file = None
                         then os\<lparr>files := (files os)(output_file \<mapsto> csv_text (header # rows))\<rparr>
                         else os)"
    using generate_users_outcome [OF r(1), of output_file os] by (auto split: option.splits)
  ultimately show ?thesis using r(1,2) by blast
qed

lemma two_john_smiths:
  "generate_users_loop 2 john_smith draws_zero start_state
   = Some (None, [header,
       [''jsmith'', ''John Smith'', ''jsmith@techcorp.com'', ''IT'', ''developers'', ''2027-03-09''],
       [''jsmith2'', ''John Smith'', ''jsmith2@techcorp.com'', ''IT'', ''developers'', ''2027-03-09'']])"
  by code_simp

text \<open>
  Claim C2, amended to variant B. In every run of variant B, whatever Faker and the
  \<^verbatim>\<open>random\<close> module return and whether or not the run ends in an exception, the
  usernames of the rows written are pairwise distinct; the username of the \<open>i\<close>-th row
  is the base form of the \<open>i\<close>-th name when no earlier row has it, and otherwise the base
  form followed by the numeral of the first integer from 2 on that gives an unused
  username. The rows are those handed to the writer, whose text is the output file
  unless the first \<^verbatim>\<open>print\<close> or \<^verbatim>\<open>open\<close> raised and no file was written. Variant A
  makes no such check.
\<close>

theorem usernames_distinct:
  "\<exists>err rows. generate_users_loop count fk rnd start_state = Some (err, header # rows) \<and>
      distinct (map hd rows) \<and>
      (\<forall>i<length rows. \<exists>base. generate_username (fake_name (fk i)) = Inr base \<and>
          (if base \<in> set (map hd (take i rows))
           then (\<exists>k. 2 \<le> k \<and> hd (rows ! i) = base @ py_str k \<and>
                   (\<forall>j. 2 \<le> j \<and> j < k \<longrightarrow> base @ py_str j \<in> set (map hd (take i rows))))
           else hd (rows ! i) = base)) \<and>
      (\<exists>e. generate_users count output_file fk rnd os
              = Some (e, if stdout_error os = None \<and> open_error os output_file = None
                         then os\<lparr>files := (files os)(output_file \<mapsto> csv_text (header # rows))\<rparr>
                         else os))"
  by (rule generate_users_usernames)

theorem usernames_distinct_witness:
  "generate_users 2 ''out.csv'' john_smith draws_zero plain_os
     = Some (None, plain_os\<lparr>files := (files plain_os)(''out.csv'' \<mapsto> csv_text [header,
         [''jsmith'', ''John Smith'', ''jsmith@techcorp.com'', ''IT'', ''developers'', ''2027-03-09''],
         [''jsmith2'', ''John Smith'', ''jsmith2@techcorp.com'', ''IT'', ''developers'', ''2027-03-09'']])\<rparr>) \<and>
   distinct [''jsmith'', ''jsmith2'']"
proof -
  let ?r1 = "[''jsmith'', ''John Smith'', ''jsmith@techcorp.com'', ''IT'', ''developers'', ''2027-03-09'']"
  let ?r2 = "[''jsmith2'', ''John Smith'', ''jsmith2@techcorp.com'', ''IT'', ''developers'', ''2027-03-09'']"
  from usernames_distinct [of 2 john_smith draws_zero "''out.csv''" plain_os]
  obtain err rows e where r:
    "generate_users_loop 2 john_smith draws_zero start_state = Some (err, header # rows)"
    "distinct (map hd rows)"
    "generate_users 2 ''out.csv'' john_smith draws_zero plain_os
       = Some (e, if stdout_error plain_os = None \<and> open_error plain_os ''out.csv'' = None
                  then plain_os\<lparr>files := (files plain_os)(''out.csv'' \<mapsto> csv_text (header # rows))\<rparr>
                  else plain_os)"
    by blast
  from r(1) two_john_smiths have rows: "rows = [?r1, ?r2]" and err: "err = None" by simp_all
  have "e = None"
    using generate_users_outcome [OF r(1), of "''out.csv''" plain_os] r(3) err
    by (simp add: plain_os_def)
  with r(3) rows have "generate_users 2 ''out.csv'' john_smith draws_zero plain_os
     = Some (None, plain_os\<lparr>files := (files plain_os)(''out.csv'' \<mapsto> csv_text [header, ?r1, ?r2])\<rparr>)"
    by (simp add: plain_os_def)
  moreover from r(2) rows have "distinct [''jsmith'', ''jsmith2'']" by simp
  ultimately show ?thesis by blast
qed

section \<open>Reproducibility\<close>

lemma distinct_DEPARTMENTS: "distinct DEPARTMENTS \<and> length DEPARTMENTS = 7"
  by (simp add: DEPARTMENTS_def)

lemma csv_field_departments:
  "d \<in> set DEPARTMENTS \<Longrightarrow> csv_field d = d \<and> CHR '','' \<notin> set d"
  by (auto simp: DEPARTMENTS_def csv_field_def csv_special_def)

lemma before_comma:
  assumes "CHR '','' \<notin> set a" "CHR '','' \<notin> set b" "a @ CHR '','' # x = b @ CHR '','' # y"
  shows "a = b"
proof -
  have "takeWhile (\<lambda>c. c \<noteq> CHR '','') (a @ CHR '','' # x) = a"
    using assms(1) by (auto simp: takeWhile_tail)
  moreover have "takeWhile (\<lambda>c. c \<noteq> CHR '','') (b @ CHR '','' # y) = b"
    using assms(2) by (auto simp: takeWhile_tail)
  ultimately show ?thesis using assms(3) by simp
qed

lemma first_row_text:
  "csv_text (header # [u, n, e, d, g, x] # rest)
     = (writerow header @ csv_field u @ '','' @ csv_field n @ '','' @ csv_field e @ '','')
       @ csv_field d @ CHR '','' # (csv_field g @ '','' @ csv_field x @ [CHR 0x0D, CHR 0x0A]
       @ csv_text rest)"
  by (simp add: csv_text_Cons writerow_def csv_record_def)

lemma first_row:
  assumes "generate_users_loop count fk rnd start_state = Some (None, header # rows)"
    "length rows = nat count" "1 \<le> count"
    "\<forall>i<nat count. generate_row (set (map hd (take i rows))) (fk i) (rnd i)
           = Some (Inr (hd (rows ! i), rows ! i))"
    "generate_username (fake_name (fk 0)) = Inr base"
  shows "\<exists>d g rest. choice DEPARTMENTS (choice_draw (rnd 0)) = Inr d \<and>
     rows = [base, fake_name (fk 0), generate_email base ''techcorp.com'', d, g,
             generate_expiry_date (fk 0)] # rest"
proof -
  obtain r0 rest where rows: "rows = r0 # rest"
    using assms(2,3) by (cases rows) auto
  have "generate_row {} (fk 0) (rnd 0) = Some (Inr (hd r0, r0))"
    using assms(3,4) rows by (auto dest!: spec [of _ 0])
  then obtain b d g where f: "generate_username (fake_name (fk 0)) = Inr b"
    "handle_duplicate {} b = Some (hd r0)"
    "choice DEPARTMENTS (choice_draw (rnd 0)) = Inr d"
    "r0 = [hd r0, fake_name (fk 0), generate_email (hd r0) ''techcorp.com'', d, g,
           generate_expiry_date (fk 0)]"
    using generate_row_fields by blast
  have "b = base" using f(1) assms(5) by simp
  moreover have "hd r0 = b" using f(2) by (simp add: handle_duplicate_def)
  ultimately show ?thesis using f(3,4) rows by auto
qed

text \<open>
  Claim C1 says that two runs of variant B with the same count and output file write the
  same content, the random source being seeded. \<^verbatim>\<open>Faker.seed(42)\<close> seeds the generator
  of Faker only: the department and the groups are drawn from Python's \<^verbatim>\<open>random\<close>
  module (lines 52, 53 and 94), which the script never seeds. Two runs on the same system
  that receive the same names and dates from Faker and different department draws from the
  \<^verbatim>\<open>random\<close> module write different files.
\<close>

theorem department_not_reproducible:
  "1 \<le> count \<Longrightarrow> stdout_error os = None \<Longrightarrow> open_error os output_file = None \<Longrightarrow>
   (\<forall>i<nat count. nonblank (fake_name (fk i))) \<Longrightarrow>
   choice_draw (rnd 0) mod 7 \<noteq> choice_draw (rnd' 0) mod 7 \<Longrightarrow>
     generate_users count output_file fk rnd os \<noteq> generate_users count output_file fk rnd' os"
proof
  assume count: "1 \<le> count" and io: "stdout_error os = None" "open_error os output_file = None"
    and names: "\<forall>i<nat count. nonblank (fake_name (fk i))"
    and draws: "choice_draw (rnd 0) mod 7 \<noteq> choice_draw (rnd' 0) mod 7"
    and same: "generate_users count output_file fk rnd os = generate_users count output_file fk rnd' os"
  have c0: "0 \<le> count" using count by simp
  have "nonblank (fake_name (fk 0))" using names count by simp
  then obtain base where base: "generate_username (fake_name (fk 0)) = Inr base"
    using generate_username_returns by blast
  obtain rows where r:
    "generate_users_loop count fk rnd start_state = Some (None, header # rows)"
    "length rows = nat count"
    "\<forall>i<nat count. generate_row (set (map hd (take i rows))) (fk i) (rnd i)
           = Some (Inr (hd (rows ! i), rows ! i))"
    using generate_rows_complete [OF c0 names, of rnd] by blast
  obtain rows' where r':
    "generate_users_loop count fk rnd' start_state = Some (None, header # rows')"
    "length rows' = nat count"
    "\<forall>i<nat count. generate_row (set (map hd (take i rows'))) (fk i) (rnd' i)
           = Some (Inr (hd (rows' ! i), rows' ! i))"
    using generate_rows_complete [OF c0 names, of rnd'] by blast
  obtain d g rest where f: "choice DEPARTMENTS (choice_draw (rnd 0)) = Inr d"
    "rows = [base, fake_name (fk 0), generate_email base ''techcorp.com'', d, g,
             generate_expiry_date (fk 0)] # rest"
    using first_row [OF r(1,2) count r(3) base] by blast
  obtain d' g' rest' where f': "choice DEPARTMENTS (choice_draw (rnd' 0)) = Inr d'"
    "rows' = [base, fake_name (fk 0), generate_email base ''techcorp.com'', d', g',
              generate_expiry_date (fk 0)] # rest'"
    using first_row [OF r'(1,2) count r'(3) base] by blast
  have "os\<lparr>files := (files os)(output_file \<mapsto> csv_text (header # rows))\<rparr>
      = os\<lparr>files := (files os)(output_file \<mapsto> csv_text (header # rows'))\<rparr>"
    using same generate_users_outcome [OF r(1), of output_file os]
      generate_users_outcome [OF r'(1), of output_file os] io
    by simp
  then have "files (os\<lparr>files := (files os)(output_file \<mapsto> csv_text (header # rows))\<rparr>)
      = files (os\<lparr>files := (files os)(output_file \<mapsto> csv_text (header # rows'))\<rparr>)"
    by (rule arg_cong)
  then have "(files os)(output_file \<mapsto> csv_text (header # rows))
      = (files os)(output_file \<mapsto> csv_text (header # rows'))"
    by simp
  then have "csv_text (header # rows) = csv_text (header # rows')" by (rule map_upd_eqD1)
  then have "csv_field d @ CHR '','' # (csv_field g @ '','' @ csv_field (generate_expiry_date (fk 0))
        @ [CHR 0x0D, CHR 0x0A] @ csv_text rest)
      = csv_field d' @ CHR '','' # (csv_field g' @ '','' @ csv_field (generate_expiry_date (fk 0))
        @ [CHR 0x0D, CHR 0x0A] @ csv_text rest')"
    unfolding f(2) f'(2) first_row_text by simp
  moreover have dm: "d \<in> set DEPARTMENTS" "d' \<in> set DEPARTMENTS"
    using f(1) f'(1) by (auto dest: choice_in_set)
  ultimately have "d = d'"
    using csv_field_departments [of d] csv_field_departments [of d'] before_comma [of d d'] by simp
  moreover have "d = DEPARTMENTS ! (choice_draw (rnd 0) mod 7)"
    "d' = DEPARTMENTS ! (choice_draw (rnd' 0) mod 7)"
    using f(1) f'(1) distinct_DEPARTMENTS by (auto simp: choice_def split: if_splits)
  moreover have "DEPARTMENTS ! (choice_draw (rnd 0) mod 7) \<noteq> DEPARTMENTS ! (choice_draw (rnd' 0) mod 7)"
    using draws distinct_DEPARTMENTS by (simp add: nth_eq_iff_index_eq)
  ultimately show False by simp
qed

theorem department_not_reproducible_witness:
  "(1 :: int) \<le> 1 \<and> stdout_error plain_os = None \<and> open_error plain_os ''test_users.csv'' = None \<and>
   nonblank (fake_name (john_smith 0)) \<and>
   choice_draw (draws_zero 0) mod 7 \<noteq> choice_draw (draws_one 0) mod 7 \<and>
   generate_users 1 ''test_users.csv'' john_smith draws_zero plain_os
     \<noteq> generate_users 1 ''test_users.csv'' john_smith draws_one plain_os"
proof -
  have c: "(1 :: int) \<le> 1" by simp
  have io: "stdout_error plain_os = None" "open_error plain_os ''test_users.csv'' = None"
    by (simp_all add: plain_os_def)
  have n: "nonblank (fake_name (john_smith i))" for i by code_simp
  then have ns: "\<forall>i<nat 1. nonblank (fake_name (john_smith i))" by simp
  have d: "choice_draw (draws_zero 0) mod 7 \<noteq> choice_draw (draws_one 0) mod 7"
    by (simp add: draws_zero_def draws_one_def)
  have "generate_users 1 ''test_users.csv'' john_smith draws_zero plain_os
     \<noteq> generate_users 1 ''test_users.csv'' john_smith draws_one plain_os"
    using c io ns d
    by (rule department_not_reproducible [where count = 1 and fk = john_smith
          and rnd = draws_zero and rnd' = draws_one])
  with c io n d show ?thesis by blast
qed

section \<open>Dates as strings and the window\<close>


















end
